theory Spec2Isabelle
  imports Main "HOL-Library.List_Lexorder"
begin

section \<open>Strings\<close>

text \<open>
  A Python \<^verbatim>\<open>str\<close> is a sequence of Unicode code points, and \<^verbatim>\<open>sorted\<close> compares
  strings code point by code point, a proper prefix coming first. A code point is a
  natural number here and a string a list of them, ordered lexicographically
  (the order of \<open>List_Lexorder\<close>). \<open>py_str\<close> embeds a literal whose characters
  are all below 256.
\<close>

type_synonym codepoint = nat

type_synonym str = "codepoint list"

definition py_str :: "string \<Rightarrow> str" where
  "py_str cs = map of_char cs"

text \<open>
  \<^verbatim>\<open>str(index)\<close> inside the f-string of \<^verbatim>\<open>build_playlist\<close>: the decimal digits of a
  natural number, without sign or padding.
\<close>

fun str_of_nat :: "nat \<Rightarrow> str" where
  "str_of_nat n =
     (if n < 10 then [48 + n] else str_of_nat (n div 10) @ [48 + n mod 10])"

declare str_of_nat.simps [simp del]

text \<open>\<^verbatim>\<open>sep.join(parts)\<close>.\<close>

fun join :: "str \<Rightarrow> str list \<Rightarrow> str" where
  "join sep [] = []"
| "join sep [x] = x"
| "join sep (x # y # ys) = x @ sep @ join sep (y # ys)"

section \<open>The regular expressions of \<^verbatim>\<open>STREAM_LINK_PATTERNS\<close>\<close>

text \<open>
  \<^verbatim>\<open>\s\<close> in a \<^verbatim>\<open>str\<close> pattern is Unicode whitespace: the code points for which
  \<^verbatim>\<open>str.isspace\<close> holds.
\<close>

definition is_space :: "codepoint \<Rightarrow> bool" where
  "is_space c \<longleftrightarrow>
     (9 \<le> c \<and> c \<le> 13) \<or> (28 \<le> c \<and> c \<le> 32) \<or> c = 0x85 \<or> c = 0xA0 \<or> c = 0x1680 \<or>
     (0x2000 \<le> c \<and> c \<le> 0x200A) \<or> c = 0x2028 \<or> c = 0x2029 \<or> c = 0x202F \<or>
     c = 0x205F \<or> c = 0x3000"

text \<open>
  A literal under \<^verbatim>\<open>re.IGNORECASE\<close>. The patterns spell their letters in lower case;
  such a letter accepts itself, its upper-case form and the extra code points the
  \<^verbatim>\<open>re\<close> module folds onto it: U+0130 and U+0131 for \<open>i\<close>, U+017F for \<open>s\<close>, U+212A
  for \<open>k\<close>. A character without case accepts itself only.
\<close>

definition ci_match :: "codepoint \<Rightarrow> codepoint \<Rightarrow> bool" where
  "ci_match p c \<longleftrightarrow>
     c = p \<or>
     (97 \<le> p \<and> p \<le> 122 \<and>
       (c + 32 = p \<or> (p = 105 \<and> (c = 0x130 \<or> c = 0x131)) \<or> (p = 115 \<and> c = 0x17F) \<or>
        (p = 107 \<and> c = 0x212A)))"

text \<open>
  One-character items: a literal, or the negated class \<^verbatim>\<open>[^\s'"]\<close> written as the
  list of what it excludes.
\<close>

datatype class_item = Space | Chr codepoint

datatype atom = Literal codepoint | NotIn "class_item list"

fun in_item :: "class_item \<Rightarrow> codepoint \<Rightarrow> bool" where
  "in_item Space c = is_space c"
| "in_item (Chr p) c = (c = p)"

fun accepts :: "atom \<Rightarrow> codepoint \<Rightarrow> bool" where
  "accepts (Literal p) c = ci_match p c"
| "accepts (NotIn items) c = (\<not> list_ex (\<lambda>i. in_item i c) items)"

text \<open>
  The constructs the two patterns use: sequence, alternation \<^verbatim>\<open>|\<close>, the greedy
  \<^verbatim>\<open>?\<close>, and the greedy \<^verbatim>\<open>*\<close> and \<^verbatim>\<open>+\<close>, which the patterns apply to a character
  class only.
\<close>

datatype regex =
    Eps
  | Atom atom
  | Seq regex regex
  | Alt regex regex
  | Opt regex
  | Star atom
  | Plus atom

text \<open>
  Backtracking as a list of successes: \<open>matches r s\<close> lists, in the order the
  engine tries them, the remainders of \<open>s\<close> after each way of matching \<open>r\<close> at the
  start of \<open>s\<close>. Greedy repetition tries the longest run first; the engine's match
  is the head of the list.
\<close>

fun star :: "atom \<Rightarrow> str \<Rightarrow> str list" where
  "star a [] = [[]]"
| "star a (c # cs) = (if accepts a c then star a cs @ [c # cs] else [c # cs])"

fun matches :: "regex \<Rightarrow> str \<Rightarrow> str list" where
  "matches Eps s = [s]"
| "matches (Atom a) [] = []"
| "matches (Atom a) (c # cs) = (if accepts a c then [cs] else [])"
| "matches (Seq r1 r2) s = concat (map (matches r2) (matches r1 s))"
| "matches (Alt r1 r2) s = matches r1 s @ matches r2 s"
| "matches (Opt r) s = matches r s @ [s]"
| "matches (Star a) s = star a s"
| "matches (Plus a) [] = []"
| "matches (Plus a) (c # cs) = (if accepts a c then star a cs else [])"

text \<open>A literal word is the sequence of its characters; \<open>seq\<close> chains items.\<close>

fun word :: "str \<Rightarrow> regex" where
  "word [] = Eps"
| "word (c # cs) = Seq (Atom (Literal c)) (word cs)"

fun seq :: "regex list \<Rightarrow> regex" where
  "seq [] = Eps"
| "seq (r # rs) = Seq r (seq rs)"

definition url_class :: atom where
  "url_class = NotIn [Space, Chr 39, Chr 34]"

text \<open>
  \<^verbatim>\<open>https?://[^\s'"]+\.m3u8[^\s'"]*\<close> and
  \<^verbatim>\<open>https?://[^\s'"]+/(?:stream|live)[^\s'"]*\<close>, both compiled with
  \<^verbatim>\<open>re.IGNORECASE\<close>.
\<close>

definition m3u8_pattern :: regex where
  "m3u8_pattern =
     seq [word (py_str ''http''), Opt (Atom (Literal 115)), word (py_str ''://''),
          Plus url_class, word (py_str ''.m3u8''), Star url_class]"

definition stream_pattern :: regex where
  "stream_pattern =
     seq [word (py_str ''http''), Opt (Atom (Literal 115)), word (py_str ''://''),
          Plus url_class, Atom (Literal 47),
          Alt (word (py_str ''stream'')) (word (py_str ''live'')), Star url_class]"

definition STREAM_LINK_PATTERNS :: "regex list" where
  "STREAM_LINK_PATTERNS = [m3u8_pattern, stream_pattern]"

section \<open>\<^verbatim>\<open>pattern.findall\<close>\<close>

text \<open>
  \<^verbatim>\<open>pattern.match\<close> at the start of \<open>s\<close>: the text consumed by the first success,
  if there is one.
\<close>

definition match_at :: "regex \<Rightarrow> str \<Rightarrow> str option" where
  "match_at r s =
     (case matches r s of [] \<Rightarrow> None | rest # _ \<Rightarrow> Some (take (length s - length rest) s))"

text \<open>
  \<^verbatim>\<open>findall\<close> scans from left to right: where the pattern matches, the matched text
  is collected (the patterns have no capturing group) and the scan goes on after
  it; elsewhere the scan moves one character ahead. Neither pattern can match the
  empty string; an empty match is collected and the scan moves one character ahead.
\<close>

function findall :: "regex \<Rightarrow> str \<Rightarrow> str list" where
  "findall r [] = (case match_at r [] of None \<Rightarrow> [] | Some m \<Rightarrow> [m])"
| "findall r (c # cs) =
     (case match_at r (c # cs) of
        None \<Rightarrow> findall r cs
      | Some m \<Rightarrow>
          if m = [] then [] # findall r cs
          else m # findall r (drop (length m) (c # cs)))"
  by pat_completeness auto

termination
  by (relation "measure (\<lambda>(r, s). length s)") auto

section \<open>\<^verbatim>\<open>extract_stream_links\<close>\<close>

text \<open>
  \<^verbatim>\<open>BeautifulSoup(html, "html.parser").get_text(" ")\<close> belongs to a library outside
  the repository: the rendering of markup as plain text is the parameter
  \<open>get_text\<close>, and every result below holds whatever it is. The set \<^verbatim>\<open>links\<close> is a
  set; \<^verbatim>\<open>sorted\<close> lists it in increasing order.
\<close>

definition text_sources :: "(str \<Rightarrow> str) \<Rightarrow> str \<Rightarrow> str list" where
  "text_sources get_text html = [html, get_text html]"

definition found_links :: "(str \<Rightarrow> str) \<Rightarrow> str \<Rightarrow> str set" where
  "found_links get_text html =
     fold (\<lambda>text links.
             fold (\<lambda>pattern links. links \<union> set (findall pattern text))
               STREAM_LINK_PATTERNS links)
       (text_sources get_text html) {}"

definition extract_stream_links :: "(str \<Rightarrow> str) \<Rightarrow> str \<Rightarrow> str list" where
  "extract_stream_links get_text html = sorted_list_of_set (found_links get_text html)"

section \<open>Sources and the fetcher\<close>

record source =
  name :: str
  url :: str

text \<open>
  The method \<^verbatim>\<open>Source.extract_links\<close>. The repository has no subclass that overrides
  it: every source extracts with \<^verbatim>\<open>extract_stream_links\<close>.
\<close>

definition extract_links :: "(str \<Rightarrow> str) \<Rightarrow> source \<Rightarrow> str \<Rightarrow> str list" where
  "extract_links get_text src html = extract_stream_links get_text html"

definition SOURCES :: "source list" where
  "SOURCES =
     [\<lparr>name = py_str ''Toffee'', url = py_str ''https://toffeelive.com/en/live''\<rparr>,
      \<lparr>name = py_str ''Bongo'', url = py_str ''https://example.com/bongo''\<rparr>]"

text \<open>
  \<^verbatim>\<open>requests.get\<close> talks to the network: it takes the state of the world and returns
  the new one, with either the exception it raised or the response. It is the
  parameter \<open>get\<close>. \<^verbatim>\<open>Response.raise_for_status\<close> raises \<^verbatim>\<open>HTTPError\<close> for a status
  from 400 to 599 and returns otherwise. The attribute \<^verbatim>\<open>text\<close> of a response is
  the field \<open>response_text\<close>.
\<close>

datatype error = ConnectionError | Timeout | HTTPError int

record response =
  status_code :: int
  response_text :: str

type_synonym 'w http_get = "str \<Rightarrow> nat \<Rightarrow> 'w \<Rightarrow> (error + response) \<times> 'w"

definition raise_for_status :: "response \<Rightarrow> error + unit" where
  "raise_for_status r =
     (if 400 \<le> status_code r \<and> status_code r < 600 then Inl (HTTPError (status_code r))
      else Inr ())"

definition fetch_html :: "'w http_get \<Rightarrow> str \<Rightarrow> nat \<Rightarrow> 'w \<Rightarrow> (error + str) \<times> 'w" where
  "fetch_html get url' timeout w =
     (case get url' timeout w of
        (Inl e, w') \<Rightarrow> (Inl e, w')
      | (Inr r, w') \<Rightarrow>
          (case raise_for_status r of
             Inl e \<Rightarrow> (Inl e, w')
           | Inr _ \<Rightarrow> (Inr (response_text r), w')))"

section \<open>Building the playlist\<close>

definition format_playlist_entry :: "str \<Rightarrow> str \<Rightarrow> str" where
  "format_playlist_entry name' url' = py_str ''#EXTINF:-1, '' @ name' @ [10] @ url'"

text \<open>The inner loop over \<^verbatim>\<open>enumerate(links, start=1)\<close>.\<close>

fun add_entries :: "source \<Rightarrow> (nat \<times> str) list \<Rightarrow> str list \<Rightarrow> str list" where
  "add_entries src [] entries = entries"
| "add_entries src ((index, link) # rest) entries =
     add_entries src rest
       (entries @ [format_playlist_entry (name src @ py_str '' '' @ str_of_nat index) link])"

text \<open>
  The outer loop over the sources. An exception of \<^verbatim>\<open>fetch_html\<close> is not caught:
  it ends the loop and is the result.
\<close>

fun build_loop ::
  "'w http_get \<Rightarrow> (str \<Rightarrow> str) \<Rightarrow> source list \<Rightarrow> str list \<Rightarrow> 'w \<Rightarrow> (error + str list) \<times> 'w"
where
  "build_loop get get_text [] entries w = (Inr entries, w)"
| "build_loop get get_text (src # rest) entries w =
     (case fetch_html get (url src) 20 w of
        (Inl e, w') \<Rightarrow> (Inl e, w')
      | (Inr html, w') \<Rightarrow>
          build_loop get get_text rest
            (add_entries src (enumerate 1 (extract_links get_text src html)) entries) w')"

definition build_playlist ::
  "'w http_get \<Rightarrow> (str \<Rightarrow> str) \<Rightarrow> source list \<Rightarrow> 'w \<Rightarrow> (error + str list) \<times> 'w"
where
  "build_playlist get get_text sources w = build_loop get get_text sources [py_str ''#EXTM3U''] w"

section \<open>Writing the playlist\<close>

text \<open>
  The file system maps a path to the text of the file there, and records every
  call of \<^verbatim>\<open>write_text\<close>. \<^verbatim>\<open>Path.write_text\<close> replaces the file.
\<close>

record filesystem =
  files :: "str \<rightharpoonup> str"
  write_calls :: "(str \<times> str) list"

definition write_text :: "str \<Rightarrow> str \<Rightarrow> filesystem \<Rightarrow> filesystem" where
  "write_text path data fs =
     fs\<lparr>files := (files fs)(path \<mapsto> data), write_calls := write_calls fs @ [(path, data)]\<rparr>"


definition PLAYLIST_PATH :: str where
  "PLAYLIST_PATH = py_str ''playlist.m3u''"

definition save_playlist :: "str list \<Rightarrow> str \<Rightarrow> filesystem \<Rightarrow> filesystem" where
  "save_playlist entries path fs = write_text path (join [10] entries @ [10]) fs"

text \<open>
  \<^verbatim>\<open>main\<close> builds, then saves. \<open>run\<close> is its body with the two module constants it
  reads as arguments; an exception of the build leaves before \<^verbatim>\<open>save_playlist\<close>.
\<close>

definition run ::
  "'w http_get \<Rightarrow> (str \<Rightarrow> str) \<Rightarrow> source list \<Rightarrow> str \<Rightarrow> 'w \<times> filesystem \<Rightarrow>
     (error + unit) \<times> 'w \<times> filesystem"
where
  "run get get_text sources path st =
     (case st of (w, fs) \<Rightarrow>
        (case build_playlist get get_text sources w of
           (Inl e, w') \<Rightarrow> (Inl e, w', fs)
         | (Inr entries, w') \<Rightarrow> (Inr (), w', save_playlist entries path fs)))"

definition main ::
  "'w http_get \<Rightarrow> (str \<Rightarrow> str) \<Rightarrow> 'w \<times> filesystem \<Rightarrow> (error + unit) \<times> 'w \<times> filesystem"
where
  "main get get_text st = run get get_text SOURCES PLAYLIST_PATH st"

section \<open>Notions the properties are stated with\<close>

text \<open>
  What a pattern matches, as a set of strings: the reading of a regular expression
  that does not mention the order in which the engine tries things.
\<close>

fun lang :: "regex \<Rightarrow> str set" where
  "lang Eps = {[]}"
| "lang (Atom a) = {[c] | c. accepts a c}"
| "lang (Seq r1 r2) = {x @ y | x y. x \<in> lang r1 \<and> y \<in> lang r2}"
| "lang (Alt r1 r2) = lang r1 \<union> lang r2"
| "lang (Opt r) = lang r \<union> {[]}"
| "lang (Star a) = {m. list_all (accepts a) m}"
| "lang (Plus a) = {m. m \<noteq> [] \<and> list_all (accepts a) m}"

text \<open>
  A character a link may hold: neither whitespace nor a quote. An item is
  \<open>url_atom\<close>, and a pattern \<open>url_only\<close>, when it accepts such characters only.
\<close>

definition url_char :: "codepoint \<Rightarrow> bool" where
  "url_char c \<longleftrightarrow> \<not> is_space c \<and> c \<noteq> 39 \<and> c \<noteq> 34"

fun url_atom :: "atom \<Rightarrow> bool" where
  "url_atom (Literal p) = url_char p"
| "url_atom (NotIn items) = (Space \<in> set items \<and> Chr 39 \<in> set items \<and> Chr 34 \<in> set items)"

fun url_only :: "regex \<Rightarrow> bool" where
  "url_only Eps = True"
| "url_only (Atom a) = url_atom a"
| "url_only (Seq r1 r2) = (url_only r1 \<and> url_only r2)"
| "url_only (Alt r1 r2) = (url_only r1 \<and> url_only r2)"
| "url_only (Opt r) = url_only r"
| "url_only (Star a) = url_atom a"
| "url_only (Plus a) = url_atom a"

text \<open>
  The two shapes of a link, in words: the text starts with \<open>http://\<close> or
  \<open>https://\<close>, holds link characters only, and after at least one character
  behind the \<open>://\<close> comes \<open>.m3u8\<close> (first shape) or \<open>/stream\<close> or \<open>/live\<close> (second
  shape). \<open>eq p c\<close> says when the character \<open>c\<close> of the text counts as the
  character \<open>p\<close> of these words: \<open>(=)\<close> compares exactly, \<open>ci_match\<close> as
  \<^verbatim>\<open>re.IGNORECASE\<close> does.
\<close>

fun starts_with :: "(codepoint \<Rightarrow> codepoint \<Rightarrow> bool) \<Rightarrow> str \<Rightarrow> str \<Rightarrow> bool" where
  "starts_with eq [] s = True"
| "starts_with eq (p # ps) [] = False"
| "starts_with eq (p # ps) (c # cs) = (eq p c \<and> starts_with eq ps cs)"

fun contains :: "(codepoint \<Rightarrow> codepoint \<Rightarrow> bool) \<Rightarrow> str \<Rightarrow> str \<Rightarrow> bool" where
  "contains eq w [] = starts_with eq w []"
| "contains eq w (c # cs) = (starts_with eq w (c # cs) \<or> contains eq w cs)"

definition after_scheme :: "(codepoint \<Rightarrow> codepoint \<Rightarrow> bool) \<Rightarrow> str \<Rightarrow> str option" where
  "after_scheme eq s =
     (if starts_with eq (py_str ''https://'') s then Some (drop 8 s)
      else if starts_with eq (py_str ''http://'') s then Some (drop 7 s)
      else None)"

definition m3u8_shape :: "(codepoint \<Rightarrow> codepoint \<Rightarrow> bool) \<Rightarrow> str \<Rightarrow> bool" where
  "m3u8_shape eq s \<longleftrightarrow>
     list_all url_char s \<and>
     (case after_scheme eq s of
        None \<Rightarrow> False
      | Some rest \<Rightarrow> rest \<noteq> [] \<and> contains eq (py_str ''.m3u8'') (tl rest))"

definition stream_shape :: "(codepoint \<Rightarrow> codepoint \<Rightarrow> bool) \<Rightarrow> str \<Rightarrow> bool" where
  "stream_shape eq s \<longleftrightarrow>
     list_all url_char s \<and>
     (case after_scheme eq s of
        None \<Rightarrow> False
      | Some rest \<Rightarrow>
          rest \<noteq> [] \<and>
          (contains eq (py_str ''/stream'') (tl rest) \<or> contains eq (py_str ''/live'') (tl rest)))"

text \<open>
  The pages a run retrieves: the results of the successive calls of \<^verbatim>\<open>fetch_html\<close>
  for the sources in order, up to the first exception. \<open>source_entries\<close> are the
  entries one source contributes for its page.
\<close>

fun fetch_pages :: "'w http_get \<Rightarrow> source list \<Rightarrow> 'w \<Rightarrow> (error + str list) \<times> 'w" where
  "fetch_pages get [] w = (Inr [], w)"
| "fetch_pages get (src # rest) w =
     (case fetch_html get (url src) 20 w of
        (Inl e, w') \<Rightarrow> (Inl e, w')
      | (Inr html, w') \<Rightarrow>
          (case fetch_pages get rest w' of
             (Inl e, w'') \<Rightarrow> (Inl e, w'')
           | (Inr pages, w'') \<Rightarrow> (Inr (html # pages), w'')))"

definition source_entries :: "(str \<Rightarrow> str) \<Rightarrow> source \<Rightarrow> str \<Rightarrow> str list" where
  "source_entries get_text src html =
     map (\<lambda>(index, link).
            format_playlist_entry (name src @ py_str '' '' @ str_of_nat index) link)
       (enumerate 1 (extract_links get_text src html))"

text \<open>
  Worlds for concrete runs. \<open>web\<close> is a network that answers a request for a
  listed address with the listed response and fails to connect to any other;
  \<open>ok\<close> is the response with status 200 and the given body. \<open>rendering\<close> is a
  text rendering given by a table: a page that is not listed holds no markup and
  is rendered as itself.
\<close>

definition web :: "(str \<rightharpoonup> response) \<Rightarrow> 'w http_get" where
  "web pages url' timeout w =
     (case pages url' of None \<Rightarrow> (Inl ConnectionError, w) | Some r \<Rightarrow> (Inr r, w))"

definition ok :: "str \<Rightarrow> response" where
  "ok page = \<lparr>status_code = 200, response_text = page\<rparr>"

definition rendering :: "(str \<rightharpoonup> str) \<Rightarrow> str \<Rightarrow> str" where
  "rendering table html = (case table html of None \<Rightarrow> html | Some t \<Rightarrow> t)"

section \<open>Sorting the set of links\<close>

lemma found_links_eq:
  "found_links gt html =
     set (findall m3u8_pattern html) \<union> set (findall stream_pattern html) \<union>
     set (findall m3u8_pattern (gt html)) \<union> set (findall stream_pattern (gt html))"
  by (simp add: found_links_def text_sources_def STREAM_LINK_PATTERNS_def)

lemma extract_stream_links_sort:
  "extract_stream_links gt html =
     sort (remdups (findall m3u8_pattern html @ findall stream_pattern html @
       findall m3u8_pattern (gt html) @ findall stream_pattern (gt html)))"
proof -
  have "found_links gt html =
      set (findall m3u8_pattern html @ findall stream_pattern html @
       findall m3u8_pattern (gt html) @ findall stream_pattern (gt html))"
    by (auto simp: found_links_eq)
  then show ?thesis
    by (simp only: extract_stream_links_def sorted_list_of_set_sort_remdups)
qed

lemma set_extract_stream_links:
  "set (extract_stream_links gt html) = found_links gt html"
  by (simp add: extract_stream_links_def found_links_eq)

section \<open>The matcher and the language of a pattern\<close>

lemma star_lang: "rest \<in> set (star a t) \<longleftrightarrow> (\<exists>m. t = m @ rest \<and> list_all (accepts a) m)"
proof (induction t)
  case Nil
  then show ?case by auto
next
  case (Cons c cs)
  show ?case
  proof (cases "accepts a c")
    case True
    show ?thesis
    proof
      assume "rest \<in> set (star a (c # cs))"
      then consider "rest \<in> set (star a cs)" | "rest = c # cs" using True by auto
      then show "\<exists>m. c # cs = m @ rest \<and> list_all (accepts a) m"
      proof cases
        case 1
        then obtain m where "cs = m @ rest" "list_all (accepts a) m" using Cons.IH by blast
        then have "c # cs = (c # m) @ rest \<and> list_all (accepts a) (c # m)" using True by simp
        then show ?thesis by blast
      next
        case 2
        then have "c # cs = [] @ rest \<and> list_all (accepts a) []" by simp
        then show ?thesis by blast
      qed
    next
      assume "\<exists>m. c # cs = m @ rest \<and> list_all (accepts a) m"
      then obtain m where m: "c # cs = m @ rest" "list_all (accepts a) m" by blast
      show "rest \<in> set (star a (c # cs))"
      proof (cases m)
        case Nil
        then have "rest = c # cs" using m by simp
        then show ?thesis using True by simp
      next
        case (Cons d ds)
        then have "cs = ds @ rest" "list_all (accepts a) ds" using m by auto
        then have "rest \<in> set (star a cs)" using Cons.IH by blast
        then show ?thesis using True by simp
      qed
    qed
  next
    case False
    show ?thesis
    proof
      assume "rest \<in> set (star a (c # cs))"
      then have "c # cs = [] @ rest \<and> list_all (accepts a) []" using False by simp
      then show "\<exists>m. c # cs = m @ rest \<and> list_all (accepts a) m" by blast
    next
      assume "\<exists>m. c # cs = m @ rest \<and> list_all (accepts a) m"
      then obtain m where m: "c # cs = m @ rest" "list_all (accepts a) m" by blast
      then have "m = []" using False by (cases m) auto
      then have "rest = c # cs" using m by simp
      then show "rest \<in> set (star a (c # cs))" using False by simp
    qed
  qed
qed

lemma plus_lang:
  "rest \<in> set (matches (Plus a) t) \<longleftrightarrow> (\<exists>m. m \<noteq> [] \<and> t = m @ rest \<and> list_all (accepts a) m)"
proof (cases t)
  case Nil
  then show ?thesis by simp
next
  case (Cons c cs)
  show ?thesis
  proof
    assume "rest \<in> set (matches (Plus a) t)"
    then have c: "accepts a c" and "rest \<in> set (star a cs)"
      using Cons by (simp_all split: if_splits)
    then obtain m where "cs = m @ rest" "list_all (accepts a) m"
      using star_lang by blast
    then have "c # m \<noteq> [] \<and> t = (c # m) @ rest \<and> list_all (accepts a) (c # m)"
      using Cons c by simp
    then show "\<exists>m. m \<noteq> [] \<and> t = m @ rest \<and> list_all (accepts a) m" by blast
  next
    assume "\<exists>m. m \<noteq> [] \<and> t = m @ rest \<and> list_all (accepts a) m"
    then obtain m where m: "m \<noteq> []" "t = m @ rest" "list_all (accepts a) m" by blast
    then obtain d ds where d: "m = d # ds" by (cases m) simp_all
    have "d = c" "cs = ds @ rest" using m(2) Cons d by simp_all
    moreover have "accepts a d" "list_all (accepts a) ds" using m(3) d by simp_all
    ultimately have "accepts a c" "rest \<in> set (star a cs)" using star_lang by blast+
    then show "rest \<in> set (matches (Plus a) t)" using Cons by simp
  qed
qed

lemma matches_lang: "rest \<in> set (matches r t) \<longleftrightarrow> (\<exists>m \<in> lang r. t = m @ rest)"
proof (induction r arbitrary: t rest)
  case Eps
  show ?case by auto
next
  case (Atom a)
  show ?case by (cases t) auto
next
  case (Seq r1 r2)
  have "rest \<in> set (matches (Seq r1 r2) t) \<longleftrightarrow>
        (\<exists>mid. mid \<in> set (matches r1 t) \<and> rest \<in> set (matches r2 mid))" by auto
  also have "\<dots> \<longleftrightarrow> (\<exists>mid. (\<exists>x \<in> lang r1. t = x @ mid) \<and> (\<exists>y \<in> lang r2. mid = y @ rest))"
    by (simp only: Seq.IH)
  also have "\<dots> \<longleftrightarrow> (\<exists>m \<in> lang (Seq r1 r2). t = m @ rest)"
  proof
    assume "\<exists>mid. (\<exists>x \<in> lang r1. t = x @ mid) \<and> (\<exists>y \<in> lang r2. mid = y @ rest)"
    then obtain x y where "x \<in> lang r1" "y \<in> lang r2" "t = x @ y @ rest" by blast
    then have "x @ y \<in> lang (Seq r1 r2) \<and> t = (x @ y) @ rest" by auto
    then show "\<exists>m \<in> lang (Seq r1 r2). t = m @ rest" by blast
  next
    assume "\<exists>m \<in> lang (Seq r1 r2). t = m @ rest"
    then obtain x y where "x \<in> lang r1" "y \<in> lang r2" "t = (x @ y) @ rest" by auto
    then have "(\<exists>x \<in> lang r1. t = x @ (y @ rest)) \<and> (\<exists>y' \<in> lang r2. y @ rest = y' @ rest)"
      by auto
    then show "\<exists>mid. (\<exists>x \<in> lang r1. t = x @ mid) \<and> (\<exists>y \<in> lang r2. mid = y @ rest)"
      by blast
  qed
  finally show ?case .
next
  case (Alt r1 r2)
  then show ?case by auto
next
  case (Opt r)
  then show ?case by auto
next
  case (Star a)
  show ?case by (auto simp: star_lang)
next
  case (Plus a)
  show ?case unfolding plus_lang by auto
qed

lemma ci_match_url_char: "ci_match p c \<Longrightarrow> url_char p \<Longrightarrow> url_char c"
  unfolding ci_match_def url_char_def is_space_def by arith

lemma accepts_url_char: "url_atom a \<Longrightarrow> accepts a c \<Longrightarrow> url_char c"
proof (cases a)
  case (Literal p)
  then show "url_atom a \<Longrightarrow> accepts a c \<Longrightarrow> url_char c" using ci_match_url_char by simp
next
  case (NotIn items)
  assume "url_atom a" "accepts a c"
  then have "Space \<in> set items" "Chr 39 \<in> set items" "Chr 34 \<in> set items"
    "\<forall>i \<in> set items. \<not> in_item i c"
    using NotIn by (simp_all add: list_ex_iff)
  then have "\<not> in_item Space c" "\<not> in_item (Chr 39) c" "\<not> in_item (Chr 34) c" by blast+
  then show "url_char c" by (simp add: url_char_def)
qed

lemma lang_url_chars: "url_only r \<Longrightarrow> m \<in> lang r \<Longrightarrow> list_all url_char m"
proof (induction r arbitrary: m)
  case (Atom a)
  then show ?case using accepts_url_char by auto
next
  case (Seq r1 r2)
  then show ?case by auto
next
  case (Star a)
  then show ?case using accepts_url_char by (auto simp: list_all_iff)
next
  case (Plus a)
  then show ?case using accepts_url_char by (auto simp: list_all_iff)
qed auto

lemma url_only_patterns: "url_only m3u8_pattern" "url_only stream_pattern"
  by (simp_all add: m3u8_pattern_def stream_pattern_def url_class_def py_str_def url_char_def is_space_def)

text \<open>A match is the consumed prefix.\<close>

lemma match_at_lang:
  assumes "match_at r t = Some m"
  shows "m \<in> lang r \<and> (\<exists>rest. t = m @ rest)"
proof -
  from assms obtain rest rs where rs: "matches r t = rest # rs" and m: "m = take (length t - length rest) t"
    by (auto simp: match_at_def split: list.splits)
  then have "rest \<in> set (matches r t)" by simp
  then obtain x where x: "x \<in> lang r" "t = x @ rest" using matches_lang by blast
  then have "m = x" using m by simp
  then show ?thesis using x by blast
qed

lemma findall_match_at:
  "m \<in> set (findall r s) \<Longrightarrow> \<exists>t. match_at r t = Some m"
proof (induction r s rule: findall.induct)
  case (1 r)
  then show ?case by (auto split: option.splits)
next
  case (2 r c cs)
  show ?case
  proof (cases "match_at r (c # cs)")
    case None
    then show ?thesis using 2 by simp
  next
    case (Some x)
    show ?thesis
    proof (cases "x = []")
      case True
      then show ?thesis using 2 Some by auto
    next
      case False
      then show ?thesis using 2 Some by auto
    qed
  qed
qed

lemma findall_lang: "m \<in> set (findall r s) \<Longrightarrow> m \<in> lang r"
  using findall_match_at match_at_lang by blast

section \<open>The shape of a match\<close>

lemma lang_SeqI: "x \<in> lang r1 \<Longrightarrow> y \<in> lang r2 \<Longrightarrow> x @ y \<in> lang (Seq r1 r2)"
  by auto

lemma lang_SeqE:
  assumes "m \<in> lang (Seq r1 r2)"
  obtains x y where "m = x @ y" "x \<in> lang r1" "y \<in> lang r2"
  using assms by auto

lemma lang_Atom_Cons: "c # cs \<in> lang (Seq (Atom a) r) \<longleftrightarrow> accepts a c \<and> cs \<in> lang r"
proof
  assume "c # cs \<in> lang (Seq (Atom a) r)"
  then obtain x y where "c # cs = x @ y" "x \<in> lang (Atom a)" "y \<in> lang r"
    by (rule lang_SeqE)
  then show "accepts a c \<and> cs \<in> lang r" by auto
next
  assume "accepts a c \<and> cs \<in> lang r"
  then have "[c] \<in> lang (Atom a)" "cs \<in> lang r" by simp_all
  then have "[c] @ cs \<in> lang (Seq (Atom a) r)" by (rule lang_SeqI)
  then show "c # cs \<in> lang (Seq (Atom a) r)" by simp
qed

lemma lang_Atom_Nil: "[] \<notin> lang (Seq (Atom a) r)"
  by auto

lemma lang_word:
  "m \<in> lang (word w) \<longleftrightarrow> length m = length w \<and> starts_with ci_match w m"
proof (induction w arbitrary: m)
  case Nil
  then show ?case by auto
next
  case (Cons p ps)
  show ?case
  proof (cases m)
    case Nil
    then show ?thesis using lang_Atom_Nil by simp
  next
    case (Cons c cs)
    have "m \<in> lang (word (p # ps)) \<longleftrightarrow> ci_match p c \<and> cs \<in> lang (word ps)"
      by (simp only: Cons word.simps lang_Atom_Cons accepts.simps)
    also have "\<dots> \<longleftrightarrow> length m = length (p # ps) \<and> starts_with ci_match (p # ps) m"
      using Cons Cons.IH by auto
    finally show ?thesis .
  qed
qed

lemma starts_with_append:
  "length m = length w \<Longrightarrow>
   starts_with eq (w @ w') (m @ r) = (starts_with eq w m \<and> starts_with eq w' r)"
proof (induction w arbitrary: m)
  case Nil
  then show ?case by simp
next
  case (Cons p ps)
  then obtain c cs where "m = c # cs" by (cases m) auto
  then show ?case using Cons by auto
qed

lemma starts_with_prefix:
  "length m = length w \<Longrightarrow> starts_with eq w m \<Longrightarrow> starts_with eq w (m @ r)"
  using starts_with_append [of m w eq "[]" r] by simp

lemma contains_start: "starts_with eq w s \<Longrightarrow> contains eq w s"
  by (cases s) auto

lemma contains_append: "contains eq w s \<Longrightarrow> contains eq w (p @ s)"
  by (induction p) auto

lemma scheme_lang:
  assumes "m \<in> lang (Seq (word (py_str ''http''))
             (Seq (Opt (Atom (Literal 115))) (Seq (word (py_str ''://'')) r)))"
  shows "\<exists>body \<in> lang r. after_scheme ci_match m = Some body"
proof -
  from assms obtain h r1 where 1: "m = h @ r1" and h: "h \<in> lang (word (py_str ''http''))"
    and r1: "r1 \<in> lang (Seq (Opt (Atom (Literal 115))) (Seq (word (py_str ''://'')) r))"
    by (rule lang_SeqE)
  from r1 obtain o' r2 where 2: "r1 = o' @ r2" and o1: "o' \<in> lang (Opt (Atom (Literal 115)))"
    and r2: "r2 \<in> lang (Seq (word (py_str ''://'')) r)"
    by (rule lang_SeqE)
  from r2 obtain c body where 3: "r2 = c @ body" and c: "c \<in> lang (word (py_str ''://''))"
    and body: "body \<in> lang r"
    by (rule lang_SeqE)
  have m: "m = h @ o' @ c @ body" using 1 2 3 by simp
  have o': "o' = [] \<or> (\<exists>x. o' = [x] \<and> ci_match 115 x)" using o1 by auto
  have lh: "length h = 4" and sh: "starts_with ci_match (py_str ''http'') h"
    using h unfolding lang_word by (simp_all add: py_str_def)
  have lc: "length c = 3" and sc: "starts_with ci_match (py_str ''://'') c"
    using c unfolding lang_word by (simp_all add: py_str_def)
  obtain c1 c2 c3 where c3: "c = [c1, c2, c3]"
    using lc by (cases c; cases "tl c"; cases "tl (tl c)") auto
  then have c1: "c1 = 58" using sc by (simp add: py_str_def ci_match_def)
  from o' show ?thesis
  proof
    assume e: "o' = []"
    have "starts_with ci_match (py_str ''http'' @ py_str ''://'') (h @ c @ body)"
      using starts_with_append [of h "py_str ''http''" ci_match "py_str ''://''" "c @ body"]
        lh sh sc starts_with_prefix [of c "py_str ''://''" ci_match body] lc
      by (simp add: py_str_def)
    then have 1: "starts_with ci_match (py_str ''http://'') m"
      using m e by (simp add: py_str_def)
    have "\<not> starts_with ci_match (py_str ''http'' @ py_str ''s://'') (h @ c @ body)"
      using starts_with_append [of h "py_str ''http''" ci_match "py_str ''s://''" "c @ body"]
        lh c3 c1 by (simp add: py_str_def ci_match_def)
    then have 2: "\<not> starts_with ci_match (py_str ''https://'') m"
      using m e by (simp add: py_str_def)
    have "drop 7 m = body" using m e lh lc by simp
    then have "after_scheme ci_match m = Some body" using 1 2 by (simp add: after_scheme_def)
    then show ?thesis using body by blast
  next
    assume "\<exists>x. o' = [x] \<and> ci_match 115 x"
    then obtain x where x: "o' = [x]" "ci_match 115 x" by blast
    have "starts_with ci_match (py_str ''http'' @ py_str ''s://'') (h @ (x # c) @ body)"
      using starts_with_append [of h "py_str ''http''" ci_match "py_str ''s://''" "(x # c) @ body"]
        lh sh x(2) starts_with_prefix [of c "py_str ''://''" ci_match body] lc sc
      by (simp add: py_str_def)
    then have 1: "starts_with ci_match (py_str ''https://'') m"
      using m x by (simp add: py_str_def)
    have "drop 8 m = body" using m x lh lc by simp
    then have "after_scheme ci_match m = Some body" using 1 by (simp add: after_scheme_def)
    then show ?thesis using body by blast
  qed
qed

declare lang.simps [simp del]

lemma lang_word_starts: "d \<in> lang (word w) \<Longrightarrow> starts_with ci_match w (d @ r)"
  by (simp add: lang_word starts_with_prefix)

lemma lang_Plus_Cons: "b \<in> lang (Plus a) \<Longrightarrow> \<exists>x bs. b = x # bs"
  by (cases b) (simp_all add: lang.simps)

lemma m3u8_body:
  assumes "body \<in> lang (seq [Plus url_class, word (py_str ''.m3u8''), Star url_class])"
  shows "body \<noteq> [] \<and> contains ci_match (py_str ''.m3u8'') (tl body)"
proof -
  from assms have "body \<in> lang (Seq (Plus url_class) (Seq (word (py_str ''.m3u8'')) (Seq (Star url_class) Eps)))"
    by (simp only: seq.simps)
  then obtain b r1 where 1: "body = b @ r1" and b: "b \<in> lang (Plus url_class)"
    and r1: "r1 \<in> lang (Seq (word (py_str ''.m3u8'')) (Seq (Star url_class) Eps))"
    by (rule lang_SeqE)
  from r1 obtain d r2 where 2: "r1 = d @ r2" and d: "d \<in> lang (word (py_str ''.m3u8''))"
    by (rule lang_SeqE)
  from b obtain x bs where x: "b = x # bs" using lang_Plus_Cons by blast
  have "starts_with ci_match (py_str ''.m3u8'') (d @ r2)"
    using d by (rule lang_word_starts)
  then have "contains ci_match (py_str ''.m3u8'') (d @ r2)" by (rule contains_start)
  then have "contains ci_match (py_str ''.m3u8'') (bs @ d @ r2)" by (rule contains_append)
  then show ?thesis using 1 2 x by simp
qed

lemma stream_body:
  assumes "body \<in> lang (seq [Plus url_class, Atom (Literal 47),
             Alt (word (py_str ''stream'')) (word (py_str ''live'')), Star url_class])"
  shows "body \<noteq> [] \<and>
         (contains ci_match (py_str ''/stream'') (tl body) \<or>
          contains ci_match (py_str ''/live'') (tl body))"
proof -
  from assms have "body \<in> lang (Seq (Plus url_class) (Seq (Atom (Literal 47))
      (Seq (Alt (word (py_str ''stream'')) (word (py_str ''live''))) (Seq (Star url_class) Eps))))"
    by (simp only: seq.simps)
  then obtain b r1 where 1: "body = b @ r1" and b: "b \<in> lang (Plus url_class)"
    and r1: "r1 \<in> lang (Seq (Atom (Literal 47))
      (Seq (Alt (word (py_str ''stream'')) (word (py_str ''live''))) (Seq (Star url_class) Eps)))"
    by (rule lang_SeqE)
  from r1 obtain c r2 where 2: "r1 = c # r2" using lang_Atom_Nil by (cases r1) blast+
  then have c: "ci_match 47 c"
    and r2: "r2 \<in> lang (Seq (Alt (word (py_str ''stream'')) (word (py_str ''live''))) (Seq (Star url_class) Eps))"
    using r1 by (simp_all only: lang_Atom_Cons accepts.simps)
  from r2 obtain d r3 where 3: "r2 = d @ r3"
    and d: "d \<in> lang (Alt (word (py_str ''stream'')) (word (py_str ''live'')))"
    by (rule lang_SeqE)
  from b obtain x bs where x: "b = x # bs" using lang_Plus_Cons by blast
  from d have "d \<in> lang (word (py_str ''stream'')) \<or> d \<in> lang (word (py_str ''live''))"
    by (simp only: lang.simps Un_iff)
  then have "starts_with ci_match (py_str ''stream'') (d @ r3) \<or>
      starts_with ci_match (py_str ''live'') (d @ r3)"
    using lang_word_starts by blast
  then have "starts_with ci_match (py_str ''/stream'') (c # d @ r3) \<or>
      starts_with ci_match (py_str ''/live'') (c # d @ r3)"
    using c by (simp add: py_str_def)
  then have "contains ci_match (py_str ''/stream'') (c # d @ r3) \<or>
      contains ci_match (py_str ''/live'') (c # d @ r3)"
    using contains_start by blast
  then have "contains ci_match (py_str ''/stream'') (bs @ c # d @ r3) \<or>
      contains ci_match (py_str ''/live'') (bs @ c # d @ r3)"
    using contains_append by blast
  then show ?thesis using 1 2 3 x by simp
qed

lemma m3u8_shape_lang:
  assumes "m \<in> lang m3u8_pattern"
  shows "m3u8_shape ci_match m"
proof -
  have u: "list_all url_char m" using assms url_only_patterns(1) by (rule lang_url_chars [rotated])
  have "m \<in> lang (Seq (word (py_str ''http''))
             (Seq (Opt (Atom (Literal 115))) (Seq (word (py_str ''://''))
               (seq [Plus url_class, word (py_str ''.m3u8''), Star url_class]))))"
    using assms by (simp only: m3u8_pattern_def seq.simps)
  then have "\<exists>body \<in> lang (seq [Plus url_class, word (py_str ''.m3u8''), Star url_class]).
      after_scheme ci_match m = Some body"
    by (rule scheme_lang)
  then obtain body where "after_scheme ci_match m = Some body"
    "body \<in> lang (seq [Plus url_class, word (py_str ''.m3u8''), Star url_class])"
    by blast
  then show ?thesis using u m3u8_body [of body] by (simp add: m3u8_shape_def)
qed

lemma stream_shape_lang:
  assumes "m \<in> lang stream_pattern"
  shows "stream_shape ci_match m"
proof -
  have u: "list_all url_char m" using assms url_only_patterns(2) by (rule lang_url_chars [rotated])
  have "m \<in> lang (Seq (word (py_str ''http''))
             (Seq (Opt (Atom (Literal 115))) (Seq (word (py_str ''://''))
               (seq [Plus url_class, Atom (Literal 47),
             Alt (word (py_str ''stream'')) (word (py_str ''live'')), Star url_class]))))"
    using assms by (simp only: stream_pattern_def seq.simps)
  then have "\<exists>body \<in> lang (seq [Plus url_class, Atom (Literal 47),
             Alt (word (py_str ''stream'')) (word (py_str ''live'')), Star url_class]).
      after_scheme ci_match m = Some body"
    by (rule scheme_lang)
  then obtain body where "after_scheme ci_match m = Some body"
    "body \<in> lang (seq [Plus url_class, Atom (Literal 47),
             Alt (word (py_str ''stream'')) (word (py_str ''live'')), Star url_class])"
    by blast
  then show ?thesis using u stream_body [of body] by (simp add: stream_shape_def)
qed

lemma found_links_shape:
  assumes "l \<in> found_links gt html"
  shows "m3u8_shape ci_match l \<or> stream_shape ci_match l"
proof -
  from assms have "l \<in> lang m3u8_pattern \<or> l \<in> lang stream_pattern"
    unfolding found_links_eq using findall_lang by blast
  then show ?thesis using m3u8_shape_lang stream_shape_lang by blast
qed

lemma found_links_url_chars:
  assumes "l \<in> found_links gt html" "c \<in> set l"
  shows "url_char c"
proof -
  have "list_all url_char l"
    using found_links_shape [OF assms(1)] by (auto simp: m3u8_shape_def stream_shape_def)
  then show ?thesis using assms(2) by (simp add: list_all_iff)
qed

lemma is_space_newline: "is_space 10"
  by (simp add: is_space_def)

lemma url_char_not_newline: "url_char c \<Longrightarrow> c \<noteq> 10"
  using is_space_newline by (auto simp: url_char_def)

section \<open>Where \<^verbatim>\<open>findall\<close> finds its matches\<close>

lemma match_at_None: "match_at r t = None \<longleftrightarrow> matches r t = []"
  by (simp add: match_at_def split: list.splits)

lemma match_at_SomeI:
  assumes "m \<in> lang r"
  shows "\<exists>m'. match_at r (m @ post) = Some m'"
proof -
  have "post \<in> set (matches r (m @ post))" using assms matches_lang by blast
  then have "matches r (m @ post) \<noteq> []" by auto
  then show ?thesis using match_at_None [of r "m @ post"] by (cases "match_at r (m @ post)") auto
qed

lemma findall_sublist:
  "m \<in> set (findall r s) \<Longrightarrow> \<exists>pre post. s = pre @ m @ post"
proof (induction r s rule: findall.induct)
  case (1 r)
  then have "match_at r [] = Some m" by (auto split: option.splits)
  then have "\<exists>rest. [] = m @ rest" using match_at_lang by blast
  then have "[] = [] @ m @ []" by simp
  then show ?case by blast
next
  case (2 r c cs)
  show ?case
  proof (cases "match_at r (c # cs)")
    case None
    then have "m \<in> set (findall r cs)" using 2(4) by simp
    then obtain pre post where "cs = pre @ m @ post" using 2(1) None by blast
    then have "c # cs = (c # pre) @ m @ post" by simp
    then show ?thesis by blast
  next
    case (Some x)
    then obtain rest where x: "c # cs = x @ rest" using match_at_lang by blast
    show ?thesis
    proof (cases "x = []")
      case True
      then have "m = [] \<or> m \<in> set (findall r cs)" using 2(4) Some by auto
      then show ?thesis
      proof
        assume "m = []"
        then have "c # cs = [] @ m @ (c # cs)" by simp
        then show ?thesis by blast
      next
        assume "m \<in> set (findall r cs)"
        then obtain pre post where "cs = pre @ m @ post" using 2(2) Some True by blast
        then have "c # cs = (c # pre) @ m @ post" by simp
        then show ?thesis by blast
      qed
    next
      case False
      then have "m = x \<or> m \<in> set (findall r (drop (length x) (c # cs)))"
        using 2(4) Some by auto
      then show ?thesis
      proof
        assume "m = x"
        then have "c # cs = [] @ m @ rest" using x by simp
        then show ?thesis by blast
      next
        assume "m \<in> set (findall r (drop (length x) (c # cs)))"
        then obtain pre post where "drop (length x) (c # cs) = pre @ m @ post"
          using 2(3) Some False by blast
        moreover have "drop (length x) (c # cs) = rest" using x by simp
        ultimately have "c # cs = (x @ pre) @ m @ post" using x by simp
        then show ?thesis by blast
      qed
    qed
  qed
qed

lemma findall_finds:
  "s = pre @ m @ post \<Longrightarrow> m \<in> lang r \<Longrightarrow> findall r s \<noteq> []"
proof (induction r s arbitrary: pre rule: findall.induct)
  case (1 r)
  then have "m = []" by simp
  then obtain m' where "match_at r [] = Some m'" using 1(2) match_at_SomeI [of m r "[]"] by auto
  then show ?case by simp
next
  case (2 r c cs)
  show ?case
  proof (cases "match_at r (c # cs)")
    case None
    have "pre \<noteq> []"
    proof
      assume "pre = []"
      then have "c # cs = m @ post" using 2(4) by simp
      then show False using match_at_SomeI [OF 2(5), of post] None by simp
    qed
    then obtain pre' where "pre = c # pre'" "cs = pre' @ m @ post"
      using 2(4) by (cases pre) auto
    then have "findall r cs \<noteq> []" using 2(1) [OF None _ 2(5)] by blast
    then show ?thesis using None by simp
  next
    case (Some x)
    then show ?thesis by simp
  qed
qed

lemma findall_Nil_iff:
  "findall r s = [] \<longleftrightarrow> \<not> (\<exists>pre m post. s = pre @ m @ post \<and> m \<in> lang r)"
proof
  assume "findall r s = []"
  then show "\<not> (\<exists>pre m post. s = pre @ m @ post \<and> m \<in> lang r)"
    using findall_finds by blast
next
  assume n: "\<not> (\<exists>pre m post. s = pre @ m @ post \<and> m \<in> lang r)"
  show "findall r s = []"
  proof (rule ccontr)
    assume "findall r s \<noteq> []"
    then obtain m where m: "m \<in> set (findall r s)" by (cases "findall r s") auto
    then have "m \<in> lang r" by (rule findall_lang)
    moreover obtain pre post where "s = pre @ m @ post" using m findall_sublist by blast
    ultimately show False using n by blast
  qed
qed

section \<open>A character that no link holds ends every match\<close>






section \<open>The loops of \<^verbatim>\<open>build_playlist\<close>\<close>

lemma add_entries_eq:
  "add_entries src ils entries =
     entries @ map (\<lambda>(index, link).
        format_playlist_entry (name src @ py_str '' '' @ str_of_nat index) link) ils"
  by (induction src ils entries rule: add_entries.induct) simp_all

lemma add_entries_source_entries:
  "add_entries src (enumerate 1 (extract_links gt src html)) entries =
     entries @ source_entries gt src html"
  by (simp add: add_entries_eq source_entries_def)

lemma build_loop_pages:
  "build_loop get gt sources entries w =
     (case fetch_pages get sources w of
        (Inl e, w') \<Rightarrow> (Inl e, w')
      | (Inr pages, w') \<Rightarrow>
          (Inr (entries @ concat (map2 (source_entries gt) sources pages)), w'))"
proof (induction sources arbitrary: entries w)
  case Nil
  show ?case by simp
next
  case (Cons src rest)
  show ?case
  proof (cases "fetch_html get (url src) 20 w")
    case (Pair res w1)
    show ?thesis
    proof (cases res)
      case (Inl e)
      then show ?thesis using Pair by simp
    next
      case (Inr html)
      have "build_loop get gt (src # rest) entries w =
          build_loop get gt rest (entries @ source_entries gt src html) w1"
        using Pair Inr
        by (simp only: build_loop.simps prod.case sum.case add_entries_source_entries)
      then show ?thesis using Pair Inr Cons.IH [of "entries @ source_entries gt src html" w1]
        by (simp split: prod.splits sum.splits)
    qed
  qed
qed

lemma build_loop_append:
  "build_loop get gt (pre @ post) entries w =
     (case build_loop get gt pre entries w of
        (Inl e, w') \<Rightarrow> (Inl e, w')
      | (Inr acc, w') \<Rightarrow> build_loop get gt post acc w')"
proof (induction pre arbitrary: entries w)
  case Nil
  show ?case by simp
next
  case (Cons src rest)
  show ?case by (simp add: Cons.IH split: prod.splits sum.splits)
qed

lemma str_of_nat_digits: "c \<in> set (str_of_nat n) \<Longrightarrow> 48 \<le> c \<and> c \<le> 57"
proof (induction n rule: str_of_nat.induct)
  case (1 n)
  show ?case
  proof (cases "n < 10")
    case True
    then show ?thesis using 1(2) by (subst (asm) str_of_nat.simps) simp
  next
    case False
    then have "c \<in> set (str_of_nat (n div 10)) \<or> c = 48 + n mod 10"
      using 1(2) by (subst (asm) str_of_nat.simps) auto
    then show ?thesis
    proof
      assume "c \<in> set (str_of_nat (n div 10))"
      then show ?thesis using 1(1) False by blast
    next
      assume "c = 48 + n mod 10"
      moreover have "n mod 10 < 10" by simp
      ultimately show ?thesis by linarith
    qed
  qed
qed

lemma str_of_nat_small: "n < 10 \<Longrightarrow> str_of_nat n = [48 + n]"
  by (subst str_of_nat.simps) simp

lemma source_entries_two:
  assumes "found_links gt html = {l1, l2}" "l1 < l2"
  shows "source_entries gt src html =
     [format_playlist_entry (name src @ py_str '' 1'') l1,
      format_playlist_entry (name src @ py_str '' 2'') l2]"
proof -
  have "sorted_list_of_set {l1, l2} = [l1, l2]"
    using assms(2) less_imp_le [of l1 l2] by (simp add: insort_is_Cons)
  then have "extract_stream_links gt html = [l1, l2]"
    using assms(1) by (simp add: extract_stream_links_def)
  then show ?thesis
    by (simp add: source_entries_def extract_links_def enumerate_simps str_of_nat_small py_str_def)
qed

lemma source_entries_none:
  assumes "found_links gt html = {}"
  shows "source_entries gt src html = []"
  using assms by (simp add: source_entries_def extract_links_def extract_stream_links_def)


lemma source_entries_newline:
  assumes "e \<in> set (source_entries gt src html)" "10 \<notin> set (name src)"
  shows "count_list e 10 = 1"
proof -
  from assms(1) obtain i l where il: "(i, l) \<in> set (enumerate 1 (extract_stream_links gt html))"
    and e: "e = format_playlist_entry (name src @ py_str '' '' @ str_of_nat i) l"
    by (auto simp: source_entries_def extract_links_def)
  from il have "l \<in> set (extract_stream_links gt html)"
    by (auto simp: in_set_enumerate_eq)
  then have "l \<in> found_links gt html" by (simp add: set_extract_stream_links)
  then have "\<forall>c \<in> set l. url_char c" using found_links_url_chars by blast
  then have l: "10 \<notin> set l" using url_char_not_newline by blast
  have d: "10 \<notin> set (str_of_nat i)" using str_of_nat_digits [of 10 i] by auto
  have "count_list (py_str ''#EXTINF:-1, '') 10 = 0" "count_list (py_str '' '') 10 = 0"
    by (simp_all add: py_str_def)
  moreover have "count_list (name src) 10 = 0" "count_list (str_of_nat i) 10 = 0"
    "count_list l 10 = 0"
    using assms(2) d l by (simp_all add: count_list_0_iff)
  ultimately show ?thesis by (simp add: e format_playlist_entry_def)
qed

section \<open>Evaluating concrete runs\<close>

lemmas eval_simps =
  py_str_def m3u8_pattern_def stream_pattern_def url_class_def ci_match_def is_space_def
  match_at_def

lemmas run_simps =
  fetch_html_def web_def ok_def raise_for_status_def rendering_def



section \<open>The claims\<close>

text \<open>
  C1. Two sources A and B: the page of A yields the links \<open>L1\<close> and \<open>L2\<close>, found
  in any order, with \<open>L1\<close> before \<open>L2\<close> in the lexicographic order, and the page of B
  yields none. Then \<^verbatim>\<open>build_playlist\<close> returns the header \<open>#EXTM3U\<close>, the entry
  of \<open>L1\<close> with index 1 and the entry of \<open>L2\<close> with index 2, each the line
  \<open>#EXTINF:-1, <name> <index>\<close>, a newline and the link; B adds nothing.
\<close>

theorem build_playlist_two_sources:
  assumes "fetch_html get (url A) 20 w = (Inr pageA, w1)"
    and "fetch_html get (url B) 20 w1 = (Inr pageB, w2)"
    and "found_links gt pageA = {L2, L1}" and "L1 < L2"
    and "found_links gt pageB = {}"
  shows "build_playlist get gt [A, B] w =
     (Inr [py_str ''#EXTM3U'',
           py_str ''#EXTINF:-1, '' @ name A @ py_str '' 1'' @ [10] @ L1,
           py_str ''#EXTINF:-1, '' @ name A @ py_str '' 2'' @ [10] @ L2], w2)"
proof -
  have a: "source_entries gt A pageA =
     [format_playlist_entry (name A @ py_str '' 1'') L1,
      format_playlist_entry (name A @ py_str '' 2'') L2]"
    using assms(3,4) by (intro source_entries_two) auto
  have b: "source_entries gt B pageB = []"
    using assms(5) by (rule source_entries_none)
  have "fetch_pages get [A, B] w = (Inr [pageA, pageB], w2)"
    using assms(1,2) by simp
  then show ?thesis
    by (simp add: build_playlist_def build_loop_pages a b format_playlist_entry_def)
qed

theorem build_playlist_two_sources_witness:
  "fetch_html
     (web [py_str ''http://a.example/'' \<mapsto> ok (py_str ''http://x/live/2 http://x/live/1''),
           py_str ''http://b.example/'' \<mapsto> ok (py_str ''<html></html>'')])
     (url \<lparr>name = py_str ''A'', url = py_str ''http://a.example/''\<rparr>) 20 () =
     (Inr (py_str ''http://x/live/2 http://x/live/1''), ()) \<and>
   fetch_html
     (web [py_str ''http://a.example/'' \<mapsto> ok (py_str ''http://x/live/2 http://x/live/1''),
           py_str ''http://b.example/'' \<mapsto> ok (py_str ''<html></html>'')])
     (url \<lparr>name = py_str ''B'', url = py_str ''http://b.example/''\<rparr>) 20 () =
     (Inr (py_str ''<html></html>''), ()) \<and>
   found_links (rendering Map.empty) (py_str ''http://x/live/2 http://x/live/1'') =
     {py_str ''http://x/live/2'', py_str ''http://x/live/1''} \<and>
   py_str ''http://x/live/1'' < py_str ''http://x/live/2'' \<and>
   found_links (rendering Map.empty) (py_str ''<html></html>'') = {} \<and>
   build_playlist
     (web [py_str ''http://a.example/'' \<mapsto> ok (py_str ''http://x/live/2 http://x/live/1''),
           py_str ''http://b.example/'' \<mapsto> ok (py_str ''<html></html>'')])
     (rendering Map.empty)
     [\<lparr>name = py_str ''A'', url = py_str ''http://a.example/''\<rparr>,
      \<lparr>name = py_str ''B'', url = py_str ''http://b.example/''\<rparr>] () =
     (Inr [py_str ''#EXTM3U'',
           py_str ''#EXTINF:-1, A 1'' @ [10] @ py_str ''http://x/live/1'',
           py_str ''#EXTINF:-1, A 2'' @ [10] @ py_str ''http://x/live/2''], ())"
proof -
  let ?get = "web [py_str ''http://a.example/'' \<mapsto> ok (py_str ''http://x/live/2 http://x/live/1''),
           py_str ''http://b.example/'' \<mapsto> ok (py_str ''<html></html>'')] :: unit http_get"
  let ?A = "\<lparr>name = py_str ''A'', url = py_str ''http://a.example/''\<rparr>"
  let ?B = "\<lparr>name = py_str ''B'', url = py_str ''http://b.example/''\<rparr>"
  have 1: "fetch_html ?get (url ?A) 20 () = (Inr (py_str ''http://x/live/2 http://x/live/1''), ())"
    by (simp add: run_simps py_str_def)
  have 2: "fetch_html ?get (url ?B) 20 () = (Inr (py_str ''<html></html>''), ())"
    by (simp add: run_simps py_str_def)
  have 3: "found_links (rendering Map.empty) (py_str ''http://x/live/2 http://x/live/1'') =
     {py_str ''http://x/live/2'', py_str ''http://x/live/1''}"
    by (simp add: found_links_eq eval_simps rendering_def)
  have 4: "py_str ''http://x/live/1'' < py_str ''http://x/live/2''"
    by (simp add: py_str_def)
  have 5: "found_links (rendering Map.empty) (py_str ''<html></html>'') = {}"
    by (simp add: found_links_eq eval_simps rendering_def)
  have "build_playlist ?get (rendering Map.empty) [?A, ?B] () =
     (Inr [py_str ''#EXTM3U'',
           py_str ''#EXTINF:-1, '' @ name ?A @ py_str '' 1'' @ [10] @ py_str ''http://x/live/1'',
           py_str ''#EXTINF:-1, '' @ name ?A @ py_str '' 2'' @ [10] @ py_str ''http://x/live/2''], ())"
    using build_playlist_two_sources [OF 1 2 3 4 5] .
  then have 6: "build_playlist ?get (rendering Map.empty) [?A, ?B] () =
     (Inr [py_str ''#EXTM3U'',
           py_str ''#EXTINF:-1, A 1'' @ [10] @ py_str ''http://x/live/1'',
           py_str ''#EXTINF:-1, A 2'' @ [10] @ py_str ''http://x/live/2''], ())"
    by (simp add: py_str_def)
  from 1 2 3 4 5 6 show ?thesis by (intro conjI)
qed

text \<open>
  C2. For every HTML input, \<^verbatim>\<open>extract_stream_links\<close> returns a sequence that is
  sorted in the lexicographic order of code points and has no duplicates, and
  the sequence is determined by the input: in whatever order the set of links is
  enumerated, sorting gives this same sequence.
\<close>

theorem extract_stream_links_sorted_distinct:
  "sorted_wrt (\<lambda>a b. (a, b) \<in> lexord {(u, v). u < v}) (extract_stream_links gt html) \<and>
   distinct (extract_stream_links gt html) \<and>
   (set ys = found_links gt html \<and> distinct ys \<longrightarrow> sort ys = extract_stream_links gt html)"
proof -
  have "sorted_wrt (<) (extract_stream_links gt html)"
    unfolding extract_stream_links_def by simp
  then have 1: "sorted_wrt (\<lambda>a b. (a, b) \<in> lexord {(u, v). u < v}) (extract_stream_links gt html)"
    by (rule sorted_wrt_mono_rel[rotated]) (simp add: list_less_def)
  have 2: "distinct (extract_stream_links gt html)"
    unfolding extract_stream_links_def by simp
  have 3: "sort ys = extract_stream_links gt html" if "set ys = found_links gt html" "distinct ys"
    using that unfolding extract_stream_links_def
    by (metis sorted_list_of_set_sort_remdups distinct_remdups_id)
  from 1 2 3 show ?thesis by blast
qed

theorem extract_stream_links_sorted_distinct_witness:
  "set [py_str ''http://b/live'', py_str ''http://a/x.m3u8''] =
     found_links (rendering Map.empty) (py_str ''http://b/live http://a/x.m3u8'') \<and>
   distinct [py_str ''http://b/live'', py_str ''http://a/x.m3u8''] \<and>
   extract_stream_links (rendering Map.empty) (py_str ''http://b/live http://a/x.m3u8'') =
     [py_str ''http://a/x.m3u8'', py_str ''http://b/live''] \<and>
   distinct (extract_stream_links (rendering Map.empty) (py_str ''http://b/live http://a/x.m3u8''))"
proof -
  have f: "found_links (rendering Map.empty) (py_str ''http://b/live http://a/x.m3u8'') =
      set [py_str ''http://b/live'', py_str ''http://a/x.m3u8'']"
    by (simp add: found_links_eq eval_simps rendering_def) blast
  have d: "distinct [py_str ''http://b/live'', py_str ''http://a/x.m3u8'']"
    by (simp add: py_str_def)
  have s: "sort [py_str ''http://b/live'', py_str ''http://a/x.m3u8''] =
      [py_str ''http://a/x.m3u8'', py_str ''http://b/live'']"
    by (simp add: py_str_def)
  show ?thesis
    using extract_stream_links_sorted_distinct
      [of "rendering Map.empty" "py_str ''http://b/live http://a/x.m3u8''"
          "[py_str ''http://b/live'', py_str ''http://a/x.m3u8'']"] f d s
    by simp
qed

text \<open>
  C3. If the sources before one are fetched (their entries \<open>acc\<close> are built) and
  the fetch for that one raises, then \<^verbatim>\<open>build_playlist\<close> ends with that
  exception, whatever sources follow: no entry is returned. The run then leaves
  the file system as it was, the record of calls of \<^verbatim>\<open>write_text\<close> included: no
  file is written. This holds for \<^verbatim>\<open>main\<close>, the run on \<^verbatim>\<open>SOURCES\<close>.
\<close>

theorem fetch_error_aborts_build:
  assumes "build_playlist get gt pre w = (Inr acc, w1)"
    and "fetch_html get (url src) 20 w1 = (Inl e, w2)"
  shows "build_playlist get gt (pre @ src # post) w = (Inl e, w2) \<and>
         run get gt (pre @ src # post) path (w, fs) = (Inl e, w2, fs) \<and>
         (SOURCES = pre @ src # post \<longrightarrow> main get gt (w, fs) = (Inl e, w2, fs))"
proof -
  have b: "build_playlist get gt (pre @ src # post) w = (Inl e, w2)"
    using assms by (simp add: build_playlist_def build_loop_append)
  then have r: "run get gt (pre @ src # post) path' (w, fs) = (Inl e, w2, fs)" for path'
    by (simp add: run_def)
  from b r show ?thesis by (auto simp: main_def)
qed

theorem fetch_error_aborts_build_witness:
  "build_playlist
     (web [py_str ''https://toffeelive.com/en/live'' \<mapsto> ok (py_str ''https://cdn.example/live/chan2'')])
     (rendering Map.empty)
     [\<lparr>name = py_str ''Toffee'', url = py_str ''https://toffeelive.com/en/live''\<rparr>] () =
     (Inr [py_str ''#EXTM3U'',
           py_str ''#EXTINF:-1, Toffee 1'' @ [10] @ py_str ''https://cdn.example/live/chan2''], ()) \<and>
   fetch_html
     (web [py_str ''https://toffeelive.com/en/live'' \<mapsto> ok (py_str ''https://cdn.example/live/chan2'')])
     (url \<lparr>name = py_str ''Bongo'', url = py_str ''https://example.com/bongo''\<rparr>) 20 () =
     (Inl ConnectionError, ()) \<and>
   main
     (web [py_str ''https://toffeelive.com/en/live'' \<mapsto> ok (py_str ''https://cdn.example/live/chan2'')])
     (rendering Map.empty) ((), \<lparr>files = Map.empty, write_calls = []\<rparr>) =
     (Inl ConnectionError, (), \<lparr>files = Map.empty, write_calls = []\<rparr>)"
proof -
  let ?get = "web [py_str ''https://toffeelive.com/en/live'' \<mapsto>
      ok (py_str ''https://cdn.example/live/chan2'')] :: unit http_get"
  let ?T = "\<lparr>name = py_str ''Toffee'', url = py_str ''https://toffeelive.com/en/live''\<rparr>"
  let ?B = "\<lparr>name = py_str ''Bongo'', url = py_str ''https://example.com/bongo''\<rparr>"
  have f: "fetch_html ?get (url ?T) 20 () = (Inr (py_str ''https://cdn.example/live/chan2''), ())"
    by (simp add: run_simps py_str_def)
  have l: "extract_stream_links (rendering Map.empty) (py_str ''https://cdn.example/live/chan2'') =
      [py_str ''https://cdn.example/live/chan2'']"
    by (simp add: extract_stream_links_sort eval_simps rendering_def)
  have 1: "build_playlist ?get (rendering Map.empty) [?T] () =
     (Inr [py_str ''#EXTM3U'',
           py_str ''#EXTINF:-1, Toffee 1'' @ [10] @ py_str ''https://cdn.example/live/chan2''], ())"
    using f l
    by (simp add: build_playlist_def build_loop_pages source_entries_def extract_links_def
        enumerate_simps str_of_nat_small format_playlist_entry_def)
      (simp add: py_str_def)
  have 2: "fetch_html ?get (url ?B) 20 () = (Inl ConnectionError, ())"
    by (simp add: run_simps py_str_def)
  have 3: "SOURCES = [?T] @ ?B # []" by (simp add: SOURCES_def)
  show ?thesis
    using fetch_error_aborts_build [OF 1 2, of "[]" PLAYLIST_PATH "\<lparr>files = Map.empty, write_calls = []\<rparr>"] 1 2 3
    by simp
qed




text \<open>
  C5, as the specification states it: the body is returned exactly for a status
  from 200 to 299. It fails for the status 300: \<^verbatim>\<open>raise_for_status\<close> does not raise,
  and \<^verbatim>\<open>fetch_html\<close> returns the body.
\<close>

theorem fetch_html_status_300_counterexample:
  "fetch_html (web [py_str ''https://example.com/bongo'' \<mapsto>
        \<lparr>status_code = 300, response_text = py_str ''<html>choices</html>''\<rparr>])
      (py_str ''https://example.com/bongo'') 20 () =
     (Inr (py_str ''<html>choices</html>''), ()) \<and>
   \<not> (200 \<le> status_code \<lparr>status_code = 300, response_text = py_str ''<html>choices</html>''\<rparr> \<and>
      status_code \<lparr>status_code = 300, response_text = py_str ''<html>choices</html>''\<rparr> < 300)"
  by (simp add: fetch_html_def web_def raise_for_status_def)

text \<open>
  C5, amended. \<^verbatim>\<open>fetch_html\<close> returns the body of the response exactly when
  \<^verbatim>\<open>requests.get\<close> returns a response whose status is not from 400 to 599, and
  raises exactly when \<^verbatim>\<open>requests.get\<close> raises (network failure, timeout) or the
  status is from 400 to 599; the error is then the one of \<^verbatim>\<open>requests.get\<close>, or
  the \<^verbatim>\<open>HTTPError\<close> of that status.
\<close>

theorem fetch_html_returns_iff:
  "(fetch_html get u t w = (Inr body, w') \<longleftrightarrow>
      (\<exists>r. get u t w = (Inr r, w') \<and> \<not> (400 \<le> status_code r \<and> status_code r < 600) \<and>
           body = response_text r)) \<and>
   (fetch_html get u t w = (Inl e, w') \<longleftrightarrow>
      get u t w = (Inl e, w') \<or>
      (\<exists>r. get u t w = (Inr r, w') \<and> 400 \<le> status_code r \<and> status_code r < 600 \<and>
           e = HTTPError (status_code r)))"
proof (cases "get u t w")
  case (Pair res w1)
  show ?thesis
  proof (cases res)
    case (Inl e')
    then show ?thesis using Pair by (auto simp: fetch_html_def)
  next
    case (Inr r)
    then show ?thesis using Pair by (auto simp: fetch_html_def raise_for_status_def)
  qed
qed

theorem fetch_html_returns_iff_witness:
  "fetch_html (web [py_str ''https://example.com/bongo'' \<mapsto> ok (py_str ''<html></html>'')])
      (py_str ''https://example.com/bongo'') 20 () = (Inr (py_str ''<html></html>''), ()) \<and>
   fetch_html (web [py_str ''https://example.com/bongo'' \<mapsto>
        \<lparr>status_code = 404, response_text = py_str ''not found''\<rparr>])
      (py_str ''https://example.com/bongo'') 20 () = (Inl (HTTPError 404), ())"
proof -
  have 1: "web [py_str ''https://example.com/bongo'' \<mapsto> ok (py_str ''<html></html>'')]
      (py_str ''https://example.com/bongo'') 20 () = (Inr (ok (py_str ''<html></html>'')), ())"
    by (simp add: web_def)
  have 2: "web [py_str ''https://example.com/bongo'' \<mapsto>
        \<lparr>status_code = 404, response_text = py_str ''not found''\<rparr>]
      (py_str ''https://example.com/bongo'') 20 () =
      (Inr \<lparr>status_code = 404, response_text = py_str ''not found''\<rparr>, ())"
    by (simp add: web_def)
  show ?thesis
    using fetch_html_returns_iff
      [of "web [py_str ''https://example.com/bongo'' \<mapsto> ok (py_str ''<html></html>'')]"
          "py_str ''https://example.com/bongo''" 20 "()" "py_str ''<html></html>''" "()"]
      fetch_html_returns_iff
      [of "web [py_str ''https://example.com/bongo'' \<mapsto>
        \<lparr>status_code = 404, response_text = py_str ''not found''\<rparr>]"
          "py_str ''https://example.com/bongo''" 20 "()" _ "()" "HTTPError 404"] 1 2
    by (simp add: ok_def)
qed







text \<open>
  C9, as the specification states it: an HTML input that holds no match of either
  pattern yields no link. It fails for the page \<open><p>http://a&#47;live</p>\<close>: the
  page holds no match, its text rendering \<open>http://a/live\<close> (the parser decodes the
  character reference) does, and that link is returned.
\<close>

theorem rendered_link_counterexample:
  "findall m3u8_pattern (py_str ''<p>http://a&#47;live</p>'') = [] \<and>
   findall stream_pattern (py_str ''<p>http://a&#47;live</p>'') = [] \<and>
   extract_stream_links
     (rendering [py_str ''<p>http://a&#47;live</p>'' \<mapsto> py_str ''http://a/live''])
     (py_str ''<p>http://a&#47;live</p>'') = [py_str ''http://a/live'']"
  by (simp add: extract_stream_links_sort eval_simps rendering_def)

text \<open>
  C9, amended. \<^verbatim>\<open>extract_stream_links\<close> returns the empty sequence exactly when
  neither candidate text, the raw HTML or its text rendering, holds a substring
  that matches one of the two patterns.
\<close>

theorem no_match_no_links:
  "extract_stream_links gt html = [] \<longleftrightarrow>
     (\<forall>text \<in> set (text_sources gt html). \<forall>p \<in> set STREAM_LINK_PATTERNS.
        \<not> (\<exists>pre m post. text = pre @ m @ post \<and> m \<in> lang p))"
proof -
  have "extract_stream_links gt html = [] \<longleftrightarrow> found_links gt html = {}"
    using set_extract_stream_links [of gt html] by (metis set_empty)
  also have "\<dots> \<longleftrightarrow>
      findall m3u8_pattern html = [] \<and> findall stream_pattern html = [] \<and>
      findall m3u8_pattern (gt html) = [] \<and> findall stream_pattern (gt html) = []"
    by (auto simp: found_links_eq)
  also have "\<dots> \<longleftrightarrow>
     (\<forall>text \<in> set (text_sources gt html). \<forall>p \<in> set STREAM_LINK_PATTERNS.
        \<not> (\<exists>pre m post. text = pre @ m @ post \<and> m \<in> lang p))"
    by (simp add: findall_Nil_iff text_sources_def STREAM_LINK_PATTERNS_def)
  finally show ?thesis .
qed

theorem no_match_no_links_witness:
  "extract_stream_links
     (rendering [py_str ''<html><body>hello</body></html>'' \<mapsto> py_str ''hello''])
     (py_str ''<html><body>hello</body></html>'') = []"
proof -
  let ?gt = "rendering [py_str ''<html><body>hello</body></html>'' \<mapsto> py_str ''hello'']"
  let ?html = "py_str ''<html><body>hello</body></html>''"
  have "findall m3u8_pattern ?html = []" "findall stream_pattern ?html = []"
    "findall m3u8_pattern (?gt ?html) = []" "findall stream_pattern (?gt ?html) = []"
    by (simp_all add: eval_simps rendering_def)
  then have "\<forall>text \<in> set (text_sources ?gt ?html). \<forall>p \<in> set STREAM_LINK_PATTERNS.
        \<not> (\<exists>pre m post. text = pre @ m @ post \<and> m \<in> lang p)"
    unfolding findall_Nil_iff by (simp add: text_sources_def STREAM_LINK_PATTERNS_def)
  then show ?thesis using no_match_no_links [of ?gt ?html] by blast
qed

text \<open>
  C10, as stated: every entry after the header holds exactly one newline. It
  fails for a source whose name holds a newline: the entry of the source named
  \<open>A\<close>, newline, \<open>B\<close> holds two.
\<close>

theorem newline_in_name_counterexample:
  "build_playlist
     (web [py_str ''http://s.example/'' \<mapsto> ok (py_str ''http://x/live'')])
     (rendering Map.empty)
     [\<lparr>name = py_str ''A'' @ [10] @ py_str ''B'', url = py_str ''http://s.example/''\<rparr>] () =
     (Inr [py_str ''#EXTM3U'',
           py_str ''#EXTINF:-1, A'' @ [10] @ py_str ''B 1'' @ [10] @ py_str ''http://x/live''], ()) \<and>
   count_list (py_str ''#EXTINF:-1, A'' @ [10] @ py_str ''B 1'' @ [10] @ py_str ''http://x/live'') 10 = 2"
proof -
  have l: "extract_stream_links (rendering Map.empty) (py_str ''http://x/live'') =
      [py_str ''http://x/live'']"
    by (simp add: extract_stream_links_sort eval_simps rendering_def)
  have "build_playlist
     (web [py_str ''http://s.example/'' \<mapsto> ok (py_str ''http://x/live'')])
     (rendering Map.empty)
     [\<lparr>name = py_str ''A'' @ [10] @ py_str ''B'', url = py_str ''http://s.example/''\<rparr>] () =
     (Inr [py_str ''#EXTM3U'',
           py_str ''#EXTINF:-1, A'' @ [10] @ py_str ''B 1'' @ [10] @ py_str ''http://x/live''], ())"
    using l
    by (simp add: build_playlist_def run_simps extract_links_def
        enumerate_simps str_of_nat_small format_playlist_entry_def)
      (simp add: py_str_def)
  moreover have "count_list (py_str ''#EXTINF:-1, A'' @ [10] @ py_str ''B 1'' @ [10] @
      py_str ''http://x/live'') 10 = 2"
    by (simp add: py_str_def)
  ultimately show ?thesis by (intro conjI)
qed

text \<open>
  C10, amended. No string that \<^verbatim>\<open>extract_stream_links\<close> returns holds a
  whitespace character, a newline or a quote. When no source name holds a
  newline, the entries that \<^verbatim>\<open>build_playlist\<close> returns are the header \<open>#EXTM3U\<close>
  followed by entries that each hold exactly one newline.
\<close>

theorem playlist_entries_two_lines:
  assumes "build_playlist get gt sources w = (Inr entries, w')"
    and "\<forall>s \<in> set sources. 10 \<notin> set (name s)"
  shows "(\<forall>l \<in> set (extract_stream_links gt html). \<forall>c \<in> set l.
            \<not> is_space c \<and> c \<noteq> 10 \<and> c \<noteq> 39 \<and> c \<noteq> 34) \<and>
         (\<exists>rest. entries = py_str ''#EXTM3U'' # rest \<and> (\<forall>e \<in> set rest. count_list e 10 = 1))"
proof -
  have 1: "\<not> is_space c \<and> c \<noteq> 10 \<and> c \<noteq> 39 \<and> c \<noteq> 34"
    if "l \<in> set (extract_stream_links gt html)" "c \<in> set l" for l c
  proof -
    have "url_char c" using that found_links_url_chars by (simp add: set_extract_stream_links)
    then show ?thesis using url_char_not_newline [of c] by (simp add: url_char_def)
  qed
  obtain res w1 where f: "fetch_pages get sources w = (res, w1)" by (cases "fetch_pages get sources w")
  then obtain pages where p: "res = Inr pages"
    and e: "entries = py_str ''#EXTM3U'' # concat (map2 (source_entries gt) sources pages)"
    using assms(1) by (cases res) (auto simp: build_playlist_def build_loop_pages)
  have "count_list x 10 = 1" if "x \<in> set (concat (map2 (source_entries gt) sources pages))" for x
  proof -
    from that obtain s pg where "(s, pg) \<in> set (zip sources pages)" "x \<in> set (source_entries gt s pg)"
      by auto
    then have "s \<in> set sources" "x \<in> set (source_entries gt s pg)"
      by (auto dest: set_zip_leftD)
    then show ?thesis using assms(2) source_entries_newline by blast
  qed
  then have 2: "\<exists>rest. entries = py_str ''#EXTM3U'' # rest \<and> (\<forall>e \<in> set rest. count_list e 10 = 1)"
    using e by blast
  from 1 2 show ?thesis by blast
qed

theorem playlist_entries_two_lines_witness:
  "build_playlist
     (web [py_str ''https://toffeelive.com/en/live'' \<mapsto> ok (py_str ''https://cdn.example/live/chan2'')])
     (rendering Map.empty)
     [\<lparr>name = py_str ''Toffee'', url = py_str ''https://toffeelive.com/en/live''\<rparr>] () =
     (Inr [py_str ''#EXTM3U'',
           py_str ''#EXTINF:-1, Toffee 1'' @ [10] @ py_str ''https://cdn.example/live/chan2''], ()) \<and>
   10 \<notin> set (py_str ''Toffee'') \<and>
   count_list (py_str ''#EXTINF:-1, Toffee 1'' @ [10] @ py_str ''https://cdn.example/live/chan2'') 10 = 1"
proof -
  let ?get = "web [py_str ''https://toffeelive.com/en/live'' \<mapsto>
      ok (py_str ''https://cdn.example/live/chan2'')] :: unit http_get"
  let ?T = "\<lparr>name = py_str ''Toffee'', url = py_str ''https://toffeelive.com/en/live''\<rparr>"
  have l: "extract_stream_links (rendering Map.empty) (py_str ''https://cdn.example/live/chan2'') =
      [py_str ''https://cdn.example/live/chan2'']"
    by (simp add: extract_stream_links_sort eval_simps rendering_def)
  have 1: "build_playlist ?get (rendering Map.empty) [?T] () =
     (Inr [py_str ''#EXTM3U'',
           py_str ''#EXTINF:-1, Toffee 1'' @ [10] @ py_str ''https://cdn.example/live/chan2''], ())"
    using l
    by (simp add: build_playlist_def run_simps extract_links_def
        enumerate_simps str_of_nat_small format_playlist_entry_def)
      (simp add: py_str_def)
  have 2: "\<forall>s \<in> set [?T]. 10 \<notin> set (name s)" by (simp add: py_str_def)
  have 3: "10 \<notin> set (py_str ''Toffee'')" by (simp add: py_str_def)
  have "\<exists>rest. [py_str ''#EXTM3U'',
           py_str ''#EXTINF:-1, Toffee 1'' @ [10] @ py_str ''https://cdn.example/live/chan2''] =
          py_str ''#EXTM3U'' # rest \<and> (\<forall>e \<in> set rest. count_list e 10 = 1)"
    using playlist_entries_two_lines [OF 1 2] by blast
  then have 4: "count_list (py_str ''#EXTINF:-1, Toffee 1'' @ [10] @
      py_str ''https://cdn.example/live/chan2'') 10 = 1"
    by auto
  from 1 3 4 show ?thesis by (intro conjI)
qed

end
